theory Spec2Isabelle
  imports Main
begin

section \<open>The option scanner of the C library\<close>

text \<open>
  The program \<^verbatim>\<open>src/main/tools/fake-sandbox-exec.c\<close> is a loop around the C library's
  \<^verbatim>\<open>getopt\<close> followed by one call of \<^verbatim>\<open>execvp\<close>. Neither routine belongs to the
  repository; both are modelled here after their POSIX.1 descriptions, \<^verbatim>\<open>getopt\<close> in
  the form of the BSD implementation (the C library of the platform whose
  \<^verbatim>\<open>sandbox-exec\<close> command the program stands in for): options are scanned strictly
  from left to right, without the argument permutation that GNU adds as an extension.

  An argument vector is the list of its strings \<open>argv[0] .. argv[argc - 1]\<close>; the
  terminating null pointer \<open>argv[argc]\<close> is the end of the list.
\<close>

datatype diag = Illegal_option char | Requires_argument char

text \<open>
  The scanner's global variables, its static scanning pointer \<open>place\<close> (the characters
  of the current token that are still to be read) and the lines it has written to the
  standard error stream.
\<close>

record getopt_state =
  opterr :: bool
  optind :: nat
  optopt :: char
  optarg :: "string option"
  place :: string
  err :: "diag list"

definition BADCH :: int where
  "BADCH = of_char (CHR ''?'')"

definition BADARG :: int where
  "BADARG = of_char (CHR '':'')"

text \<open>
  The second half of \<^verbatim>\<open>getopt\<close>: the option letter \<open>optopt\<close> has been read and \<open>place\<close>
  stands behind it.
  \<^verbatim>\<open>
  if (optopt == ':' || (oli = strchr(ostr, optopt)) == NULL) {
    if (*place == 0) ++optind;
    if (opterr && *ostr != ':') fprintf(stderr, "%s: illegal option -- %c\n", ...);
    return (BADCH);
  }
  if (oli[1] != ':') {                 /* don't need argument */
    optarg = NULL;
    if (*place == 0) ++optind;
  } else {
    if (*place) optarg = place;        /* the rest of this token */
    else if (nargc > ++optind) optarg = nargv[optind];   /* the next token */
    else {                             /* option-argument absent */
      place = EMSG;
      if (*ostr == ':') return (BADARG);
      if (opterr) fprintf(stderr, "%s: option requires an argument -- %c\n", ...);
      return (BADCH);
    }
    place = EMSG;
    ++optind;
  }
  return (optopt);
  \<close>
\<close>

definition getopt_letter :: "string list \<Rightarrow> string \<Rightarrow> getopt_state \<Rightarrow> int \<times> getopt_state" where
  "getopt_letter nargv ostr s =
     (let c = optopt s; oli = dropWhile (\<lambda>x. x \<noteq> c) ostr in
      if c = CHR '':'' \<or> oli = [] then
        (let s1 = (if place s = [] then s\<lparr>optind := optind s + 1\<rparr> else s);
             s2 = (if opterr s1 \<and> take 1 ostr \<noteq> '':''
                   then s1\<lparr>err := err s1 @ [Illegal_option c]\<rparr> else s1)
         in (BADCH, s2))
      else if take 1 (tl oli) \<noteq> '':'' then
        (let s1 = s\<lparr>optarg := None\<rparr>
         in (of_char c, if place s1 = [] then s1\<lparr>optind := optind s1 + 1\<rparr> else s1))
      else if place s \<noteq> [] then
        (of_char c, s\<lparr>optarg := Some (place s), place := [], optind := optind s + 1\<rparr>)
      else if optind s + 1 < length nargv then
        (of_char c, s\<lparr>optarg := Some (nargv ! (optind s + 1)), place := [],
                        optind := optind s + 2\<rparr>)
      else
        (let s1 = s\<lparr>optind := optind s + 1, place := []\<rparr>
         in if take 1 ostr = '':'' then (BADARG, s1)
            else (BADCH, if opterr s1 then s1\<lparr>err := err s1 @ [Requires_argument c]\<rparr>
                         else s1)))"

text \<open>
  The first half: when the current token is used up, move to the token at \<open>optind\<close>.
  \<^verbatim>\<open>
  if (*place == 0) {                   /* update scanning pointer */
    place = nargv[optind];
    if (optind >= nargc || *place++ != '-') {
      place = EMSG;                    /* argument is absent or is not an option */
      return (-1);
    }
    optopt = *place++;
    if (optopt == '-' && *place == 0) {
      ++optind;                        /* "--" => end of options */
      place = EMSG;
      return (-1);
    }
    if (optopt == 0) {                 /* solitary '-' */
      place = EMSG;
      if (strchr(ostr, '-') == NULL) return (-1);
      optopt = '-';
    }
  } else
    optopt = *place++;
  \<close>
\<close>

definition getopt :: "string list \<Rightarrow> string \<Rightarrow> getopt_state \<Rightarrow> int \<times> getopt_state" where
  "getopt nargv ostr s =
     (if place s = [] then
        (if length nargv \<le> optind s then (- 1, s)
         else case nargv ! optind s of
             [] \<Rightarrow> (- 1, s)
           | d # r \<Rightarrow>
               if d \<noteq> CHR ''-'' then (- 1, s)
               else (case r of
                   [] \<Rightarrow>
                     if CHR ''-'' \<notin> set ostr then (- 1, s\<lparr>optopt := CHR 0x00\<rparr>)
                     else getopt_letter nargv ostr (s\<lparr>optopt := CHR ''-''\<rparr>)
                 | c # r' \<Rightarrow>
                     if c = CHR ''-'' \<and> r' = []
                     then (- 1, s\<lparr>optopt := c, optind := optind s + 1\<rparr>)
                     else getopt_letter nargv ostr (s\<lparr>optopt := c, place := r'\<rparr>)))
      else getopt_letter nargv ostr (s\<lparr>optopt := hd (place s), place := tl (place s)\<rparr>))"

text \<open>The state in which a process starts: \<open>optind = 1\<close>, \<open>opterr = 1\<close>, nothing scanned.\<close>

definition getopt_init :: getopt_state where
  "getopt_init = \<lparr>opterr = True, optind = 1, optopt = CHR 0x00, optarg = None,
                  place = [], err = []\<rparr>"

section \<open>The program\<close>

text \<open>
  What is left to scan: the tokens from \<open>optind\<close> on, and the characters of the current
  token. Every call of \<open>getopt\<close> that does not return \<open>-1\<close> makes it smaller, which is
  why the loop of \<open>main\<close> ends.
\<close>

definition scan_left :: "string list \<Rightarrow> getopt_state \<Rightarrow> nat \<times> nat" where
  "scan_left nargv s =
     (length nargv - optind s,
      if place s \<noteq> [] then length (place s)
      else if optind s < length nargv then length (nargv ! optind s) else 0)"


text \<open>
  Lines 6 to 8 of \<open>main\<close>:
  \<^verbatim>\<open>
  while ((ch = getopt(ac, av, "f:n:p:D:")) != -1) {
    continue;
  }
  \<close>
  The value of \<open>ch\<close> is used for nothing but the test, so an illegal option and a
  missing value (both \<open>'?'\<close>) keep the loop going like a flag does.
\<close>

function getopt_loop :: "string list \<Rightarrow> string \<Rightarrow> getopt_state \<Rightarrow> getopt_state" where
  "getopt_loop av ostr s =
     (let r = getopt av ostr s
      in if fst r \<noteq> - 1 then getopt_loop av ostr (snd r) else snd r)"
  by pat_completeness auto
termination
proof (relation "inv_image (less_than <*lex*> less_than) (\<lambda>(av, ostr, s). scan_left av s)")
  show "wf (inv_image (less_than <*lex*> less_than)
              (\<lambda>(av :: string list, ostr :: string, s). scan_left av s))"
    by (intro wf_inv_image wf_lex_prod wf_less_than)
next
  fix av :: "string list" and ostr :: string and s :: getopt_state and r
  assume r: "r = getopt av ostr s" and go: "fst r \<noteq> - 1"
  have letter: "(optind t' = optind t \<and> place t' = place t \<and> place t \<noteq> [])
              \<or> (optind t < optind t' \<and> place t' = [])"
    if "getopt_letter av ostr t = (ch, t')" for t t' ch
    using that by (auto simp: getopt_letter_def Let_def split: if_splits)
  obtain ch s' where g: "getopt av ostr s = (ch, s')"
    by (cases "getopt av ostr s")
  with r go have ch: "ch \<noteq> - 1"
    by simp
  have "(scan_left av s', scan_left av s) \<in> less_than <*lex*> less_than"
  proof (cases "place s = []")
    case True
    with g ch show ?thesis
      by (auto simp: getopt_def scan_left_def split: if_splits list.splits dest!: letter)
  next
    case False
    with g ch show ?thesis
      by (auto simp: getopt_def scan_left_def split: if_splits list.splits dest!: letter)
  qed
  with r g show "((av, ostr, snd r), (av, ostr, s))
      \<in> inv_image (less_than <*lex*> less_than) (\<lambda>(av, ostr, s). scan_left av s)"
    by simp
qed

text \<open>The scan of \<open>main\<close>, from the state in which the process starts.\<close>

definition parse_flags :: "string list \<Rightarrow> getopt_state" where
  "parse_flags argv = getopt_loop argv ''f:n:p:D:'' getopt_init"

text \<open>
  \<open>execvp(file, av)\<close> either replaces the process image and does not return, or fails
  and returns \<open>-1\<close>. Whether the file is found on the search path and can be loaded is the
  environment's matter: the parameter \<open>can_exec\<close>. A null \<open>file\<close> is outside the
  routine's contract; what happens then is kept apart as \<open>Null_file\<close>. \<open>Out_of_bounds\<close>
  is the read of \<open>av[0]\<close> behind the terminating null pointer of the vector.
\<close>

datatype outcome = Replaced string "string list" | Returned int | Null_file | Out_of_bounds

definition execvp :: "(string \<Rightarrow> bool) \<Rightarrow> string option \<Rightarrow> string list \<Rightarrow> outcome" where
  "execvp can_exec file av =
     (case file of
        None \<Rightarrow> Null_file
      | Some f \<Rightarrow> if can_exec f then Replaced f av else Returned (- 1))"

text \<open>
  Lines 9 to 11:
  \<^verbatim>\<open>
  ac -= optind;
  av += optind;
  return execvp(av[0], av);
  \<close>
  \<open>av\<close> now starts at index \<open>optind\<close> of the vector; \<open>av[0]\<close> is the null pointer when
  \<open>optind = argc\<close>. The result is what has been written to the standard error stream
  and how the process goes on; \<open>main\<close> itself writes nothing.
\<close>

definition operands :: "string list \<Rightarrow> string list" where
  "operands argv = drop (optind (parse_flags argv)) argv"

definition main :: "(string \<Rightarrow> bool) \<Rightarrow> string list \<Rightarrow> diag list \<times> outcome" where
  "main can_exec argv =
     (let s = parse_flags argv;
          ac = int (length argv) - int (optind s)
      in if length argv < optind s then (err s, Out_of_bounds)
         else let av = operands argv
              in (err s, execvp can_exec (case av of [] \<Rightarrow> None | f # _ \<Rightarrow> Some f) av))"

section \<open>Shapes of argument vectors\<close>

text \<open>
  A recognized flag with its value, in either spelling: the value as the next token
  (\<^verbatim>\<open>-f foo\<close>) or attached to the flag in one token (\<^verbatim>\<open>-ffoo\<close>); an attached value has
  at least one character.
\<close>

datatype flag_arg = Separate char string | Attached char char string

fun letter :: "flag_arg \<Rightarrow> char" where
  "letter (Separate c v) = c"
| "letter (Attached c a v) = c"

fun tokens_of :: "flag_arg \<Rightarrow> string list" where
  "tokens_of (Separate c v) = [[CHR ''-'', c], v]"
| "tokens_of (Attached c a v) = [CHR ''-'' # c # a # v]"

definition recognized :: "char \<Rightarrow> bool" where
  "recognized c = (c \<in> set ''fnpD'')"

definition flag_tokens :: "flag_arg list \<Rightarrow> string list" where
  "flag_tokens fs = concat (map tokens_of fs)"

text \<open>
  A token at which \<open>getopt\<close> stops without consuming it: the empty string, a string that
  does not begin with \<open>-\<close>, or \<open>-\<close> alone.
\<close>

definition is_operand :: "string \<Rightarrow> bool" where
  "is_operand t = (case t of [] \<Rightarrow> True | d # r \<Rightarrow> d \<noteq> CHR ''-'' \<or> r = [])"

text \<open>
  The filter in words: from the left, every token that begins with \<open>-\<close> and has more
  characters is consumed as options, and with it the next token when the first
  recognized letter of the token is its last character (\<open>takes_next\<close>, on the characters
  behind the \<open>-\<close>); the token \<open>--\<close> is consumed and ends the scan; the scan stops in
  front of the first token that is not such an option token. What is left is the
  command and its arguments.
\<close>

definition takes_next :: "string \<Rightarrow> bool" where
  "takes_next cs = (case dropWhile (\<lambda>c. \<not> recognized c) cs of [c] \<Rightarrow> True | _ \<Rightarrow> False)"


text \<open>Two environments: one in which every file can be launched, one in which none can.\<close>

definition every_file :: "string \<Rightarrow> bool" where
  "every_file f = True"

definition no_file :: "string \<Rightarrow> bool" where
  "no_file f = False"

text \<open>
  Two scanner states see the same scan when they stand at the same distance behind the
  prefixes \<open>m\<close> and \<open>n\<close> of their vectors, at the same place in the token, and have
  written the same lines since their outputs were \<open>es\<close> and \<open>et\<close>.
\<close>

definition same_scan ::
  "nat \<Rightarrow> nat \<Rightarrow> diag list \<Rightarrow> diag list \<Rightarrow> getopt_state \<Rightarrow> getopt_state \<Rightarrow> bool" where
  "same_scan m n es et s t \<longleftrightarrow>
     (\<exists>k. optind s = m + k \<and> optind t = n + k) \<and> place s = place t
     \<and> opterr s = opterr t \<and> (\<exists>ds. err s = es @ ds \<and> err t = et @ ds)"

section \<open>One call of the scanner\<close>

declare getopt_loop.simps [simp del]

lemma of_char_int_nonneg: "(0::int) \<le> of_char c"
  by (simp add: of_char_def)

lemma of_char_int_not_eof: "(of_char c :: int) \<noteq> - 1"
  using of_char_int_nonneg [of c] by simp

lemma getopt_loop_unfold:
  "getopt_loop av ostr s =
     (if fst (getopt av ostr s) \<noteq> - 1 then getopt_loop av ostr (snd (getopt av ostr s))
      else snd (getopt av ostr s))"
  by (subst getopt_loop.simps) (simp add: Let_def)

lemma getopt_separate:
  assumes "place s = []" "optind s = length pre" "recognized c"
  shows "getopt (pre @ [CHR ''-'', c] # v # post) ''f:n:p:D:'' s
       = (of_char c, s\<lparr>optopt := c, optarg := Some v, optind := length pre + 2\<rparr>)"
  using assms
  by (auto simp: getopt_def getopt_letter_def recognized_def Let_def nth_append)

lemma getopt_attached:
  assumes "place s = []" "optind s = length pre" "recognized c"
  shows "getopt (pre @ (CHR ''-'' # c # a # v) # post) ''f:n:p:D:'' s
       = (of_char c, s\<lparr>optopt := c, optarg := Some (a # v), optind := length pre + 1\<rparr>)"
  using assms
  by (auto simp: getopt_def getopt_letter_def recognized_def Let_def nth_append)


lemma loop_flag:
  assumes "place s = []" "optind s = length pre" "recognized (letter f)"
  shows "\<exists>s'. getopt_loop (pre @ tokens_of f @ post) ''f:n:p:D:'' s
               = getopt_loop (pre @ tokens_of f @ post) ''f:n:p:D:'' s'
            \<and> place s' = [] \<and> optind s' = length pre + length (tokens_of f)
            \<and> err s' = err s \<and> opterr s' = opterr s"
proof (cases f)
  case (Separate c v)
  with assms have "recognized c"
    by simp
  from getopt_separate [OF assms(1,2) this, of v post] Separate assms(1) show ?thesis
    by (subst getopt_loop_unfold) (auto simp: of_char_int_not_eof)
next
  case (Attached c a v)
  with assms have "recognized c"
    by simp
  from getopt_attached [OF assms(1,2) this, of a v post] Attached assms(1) show ?thesis
    by (subst getopt_loop_unfold) (auto simp: of_char_int_not_eof)
qed

lemma loop_flags:
  assumes "place s = []" "optind s = length pre" "\<forall>f \<in> set fs. recognized (letter f)"
  shows "\<exists>s'. getopt_loop (pre @ flag_tokens fs @ post) ''f:n:p:D:'' s
               = getopt_loop (pre @ flag_tokens fs @ post) ''f:n:p:D:'' s'
            \<and> place s' = [] \<and> optind s' = length pre + length (flag_tokens fs)
            \<and> err s' = err s \<and> opterr s' = opterr s"
  using assms
proof (induction fs arbitrary: s pre)
  case Nil
  then show ?case
    by (auto simp: flag_tokens_def)
next
  case (Cons f fs)
  let ?av = "pre @ flag_tokens (f # fs) @ post"
  have av: "?av = pre @ tokens_of f @ (flag_tokens fs @ post)"
       "?av = (pre @ tokens_of f) @ flag_tokens fs @ post"
    by (simp_all add: flag_tokens_def)
  from Cons.prems obtain s1 where s1: "getopt_loop ?av ''f:n:p:D:'' s = getopt_loop ?av ''f:n:p:D:'' s1"
      "place s1 = []" "optind s1 = length (pre @ tokens_of f)" "err s1 = err s" "opterr s1 = opterr s"
    using loop_flag [of s pre f "flag_tokens fs @ post"] by (auto simp: av(1))
  from Cons.prems have "\<forall>f \<in> set fs. recognized (letter f)"
    by simp
  from Cons.IH [OF s1(2,3) this] obtain s2 where
      "getopt_loop ?av ''f:n:p:D:'' s1 = getopt_loop ?av ''f:n:p:D:'' s2"
      "place s2 = []" "optind s2 = length (pre @ tokens_of f) + length (flag_tokens fs)"
      "err s2 = err s1" "opterr s2 = opterr s1"
    by (auto simp: av(2))
  with s1 show ?case
    by (intro exI [of _ s2]) (simp add: flag_tokens_def)
qed



lemma getopt_dashdash:
  assumes "place s = []" "optind s = length pre"
  shows "fst (getopt (pre @ ''--'' # post) ''f:n:p:D:'' s) = - 1"
    and "optind (snd (getopt (pre @ ''--'' # post) ''f:n:p:D:'' s)) = length pre + 1"
    and "err (snd (getopt (pre @ ''--'' # post) ''f:n:p:D:'' s)) = err s"
  using assms by (auto simp: getopt_def)



text \<open>Scanning looks only at the tokens from \<open>optind\<close> on.\<close>

lemma getopt_letter_shift:
  assumes "same_scan (length pre) (length pre') es et s t" "optopt s = optopt t"
  shows "fst (getopt_letter (pre @ rest) ostr s) = fst (getopt_letter (pre' @ rest) ostr t)
       \<and> same_scan (length pre) (length pre') es et (snd (getopt_letter (pre @ rest) ostr s))
            (snd (getopt_letter (pre' @ rest) ostr t))"
  using assms
  by (auto simp: getopt_letter_def same_scan_def Let_def nth_append)

lemma getopt_shift:
  assumes "same_scan (length pre) (length pre') es et s t"
  shows "fst (getopt (pre @ rest) ostr s) = fst (getopt (pre' @ rest) ostr t)
       \<and> same_scan (length pre) (length pre') es et (snd (getopt (pre @ rest) ostr s))
            (snd (getopt (pre' @ rest) ostr t))"
proof -
  from assms obtain k where k: "optind s = length pre + k" "optind t = length pre' + k"
      and eq: "place s = place t" "opterr s = opterr t"
    by (auto simp: same_scan_def)
  have upd: "same_scan (length pre) (length pre') es et
               (s\<lparr>optopt := c, place := p\<rparr>) (t\<lparr>optopt := c, place := p\<rparr>)"
            "same_scan (length pre) (length pre') es et (s\<lparr>optopt := c\<rparr>) (t\<lparr>optopt := c\<rparr>)"
            "same_scan (length pre) (length pre') es et (s\<lparr>optopt := c, optind := optind s + 1\<rparr>)
               (t\<lparr>optopt := c, optind := optind t + 1\<rparr>)" for c p
    using assms by (auto simp: same_scan_def)
  have letter:
    "fst (getopt_letter (pre @ rest) ostr (s\<lparr>optopt := c, place := p\<rparr>))
       = fst (getopt_letter (pre' @ rest) ostr (t\<lparr>optopt := c, place := p\<rparr>))"
    "same_scan (length pre) (length pre') es et
       (snd (getopt_letter (pre @ rest) ostr (s\<lparr>optopt := c, place := p\<rparr>)))
       (snd (getopt_letter (pre' @ rest) ostr (t\<lparr>optopt := c, place := p\<rparr>)))"
    "fst (getopt_letter (pre @ rest) ostr (s\<lparr>optopt := c\<rparr>))
       = fst (getopt_letter (pre' @ rest) ostr (t\<lparr>optopt := c\<rparr>))"
    "same_scan (length pre) (length pre') es et
       (snd (getopt_letter (pre @ rest) ostr (s\<lparr>optopt := c\<rparr>)))
       (snd (getopt_letter (pre' @ rest) ostr (t\<lparr>optopt := c\<rparr>)))" for c p
    using getopt_letter_shift [OF upd(1), where rest = rest and ostr = ostr]
      getopt_letter_shift [OF upd(2), where rest = rest and ostr = ostr]
    by simp_all
  show ?thesis
  proof (cases "place s = []")
    case False
    with eq have "place t \<noteq> []"
      by simp
    with False eq(1) letter(1,2) show ?thesis
      by (simp add: getopt_def)
  next
    case True
    with eq have pt: "place t = []"
      by simp
    show ?thesis
    proof (cases "k < length rest")
      case False
      with k True pt assms show ?thesis
        by (simp add: getopt_def)
    next
      case inside: True
      show ?thesis
        using True pt assms upd inside k letter
        by (simp add: getopt_def split: list.splits)
    qed
  qed
qed

lemma getopt_loop_shift:
  assumes "same_scan (length pre) (length pre') es et s t"
  shows "same_scan (length pre) (length pre') es et (getopt_loop (pre @ rest) ostr s)
           (getopt_loop (pre' @ rest) ostr t)"
  using assms
proof (induction "pre @ rest" ostr s arbitrary: t rule: getopt_loop.induct)
  case (1 ostr s)
  note step = getopt_shift [OF "1.prems", of rest ostr]
  show ?case
  proof (cases "fst (getopt (pre @ rest) ostr s) = - 1")
    case True
    with step show ?thesis
      by (subst (1 2) getopt_loop_unfold) simp
  next
    case False
    with step "1.hyps" [OF refl False, of "snd (getopt (pre' @ rest) ostr t)"] show ?thesis
      by (subst (1 2) getopt_loop_unfold) simp
  qed
qed

lemma operands_skip_flags:
  assumes "\<forall>f \<in> set fs. recognized (letter f)"
  shows "operands (prog # flag_tokens fs @ rest) = operands (prog # rest)"
    and "err (parse_flags (prog # flag_tokens fs @ rest)) = err (parse_flags (prog # rest))"
    and "optind (parse_flags (prog # flag_tokens fs @ rest))
       = length (flag_tokens fs) + optind (parse_flags (prog # rest))"
proof -
  let ?pre = "prog # flag_tokens fs"
  from loop_flags [of getopt_init "[prog]" fs rest] assms
  obtain s' where s': "parse_flags (?pre @ rest) = getopt_loop (?pre @ rest) ''f:n:p:D:'' s'"
      "place s' = []" "optind s' = length ?pre" "err s' = []" "opterr s'"
    by (auto simp: parse_flags_def getopt_init_def)
  then have "same_scan (length ?pre) (length [prog]) [] [] s' getopt_init"
    by (simp add: same_scan_def getopt_init_def)
  from getopt_loop_shift [OF this, of rest "''f:n:p:D:''"] s'(1)
  have "same_scan (length ?pre) (length [prog]) [] [] (parse_flags (?pre @ rest)) (parse_flags ([prog] @ rest))"
    by (simp add: parse_flags_def)
  then obtain k where k: "optind (parse_flags (?pre @ rest)) = length ?pre + k"
      "optind (parse_flags ([prog] @ rest)) = length [prog] + k"
      and e: "err (parse_flags (?pre @ rest)) = err (parse_flags ([prog] @ rest))"
    by (auto simp: same_scan_def)
  from k show "operands (prog # flag_tokens fs @ rest) = operands (prog # rest)"
    by (simp add: operands_def)
  from e show "err (parse_flags (prog # flag_tokens fs @ rest)) = err (parse_flags (prog # rest))"
    by simp
  from k show "optind (parse_flags (prog # flag_tokens fs @ rest))
       = length (flag_tokens fs) + optind (parse_flags (prog # rest))"
    by simp
qed


lemma getopt_letter_not_eof: "fst (getopt_letter av ostr s) \<noteq> - 1"
  using of_char_int_not_eof [of "optopt s"]
  by (auto simp: getopt_letter_def Let_def BADCH_def BADARG_def of_char_int_not_eof)

lemma getopt_letter_inv:
  assumes "optind s < length av"
  shows "optind s \<le> optind (snd (getopt_letter av ostr s))"
    and "place (snd (getopt_letter av ostr s)) = []
       \<or> optind (snd (getopt_letter av ostr s)) < length av"
    and "optind (snd (getopt_letter av ostr s)) \<le> length av"
  using assms by (auto simp: getopt_letter_def Let_def)

lemma getopt_cases:
  assumes "place s = [] \<or> optind s < length av"
  shows "(place (snd (getopt av ostr s)) = [] \<and> optind s \<le> optind (snd (getopt av ostr s))
          \<and> (optind s \<le> length av \<longrightarrow> optind (snd (getopt av ostr s)) \<le> length av))
       \<or> (\<exists>t. getopt av ostr s = getopt_letter av ostr t \<and> optind t = optind s
              \<and> optind s < length av)"
proof (cases "place s = []")
  case False
  with assms have "getopt av ostr s
      = getopt_letter av ostr (s\<lparr>optopt := hd (place s), place := tl (place s)\<rparr>)"
      "optind (s\<lparr>optopt := hd (place s), place := tl (place s)\<rparr>) = optind s"
      "optind s < length av"
    by (simp_all add: getopt_def)
  then show ?thesis
    by blast
next
  case True
  show ?thesis
  proof (cases "length av \<le> optind s")
    case True
    with \<open>place s = []\<close> show ?thesis
      by (simp add: getopt_def)
  next
    case False
    have upd: "optind (s\<lparr>optopt := c\<rparr>) = optind s"
      "optind (s\<lparr>optopt := c, place := p\<rparr>) = optind s" for c p
      by simp_all
    from False \<open>place s = []\<close> show ?thesis
      by (simp add: getopt_def split: list.splits) (metis upd)
  qed
qed

lemma getopt_inv:
  assumes "place s = [] \<or> optind s < length av"
  shows "optind s \<le> optind (snd (getopt av ostr s))"
    and "place (snd (getopt av ostr s)) = [] \<or> optind (snd (getopt av ostr s)) < length av"
    and "optind s \<le> length av \<Longrightarrow> optind (snd (getopt av ostr s)) \<le> length av"
proof -
  from getopt_cases [OF assms, of ostr]
  have "optind s \<le> optind (snd (getopt av ostr s))
      \<and> (place (snd (getopt av ostr s)) = [] \<or> optind (snd (getopt av ostr s)) < length av)
      \<and> (optind s \<le> length av \<longrightarrow> optind (snd (getopt av ostr s)) \<le> length av)"
  proof
    assume "place (snd (getopt av ostr s)) = [] \<and> optind s \<le> optind (snd (getopt av ostr s))
          \<and> (optind s \<le> length av \<longrightarrow> optind (snd (getopt av ostr s)) \<le> length av)"
    then show ?thesis
      by blast
  next
    assume "\<exists>t. getopt av ostr s = getopt_letter av ostr t \<and> optind t = optind s
              \<and> optind s < length av"
    then obtain t where t: "getopt av ostr s = getopt_letter av ostr t" "optind t = optind s"
        "optind t < length av"
      by auto
    from getopt_letter_inv [OF t(3), of ostr] t(1,2) show ?thesis
      by simp
  qed
  then show "optind s \<le> optind (snd (getopt av ostr s))"
    and "place (snd (getopt av ostr s)) = [] \<or> optind (snd (getopt av ostr s)) < length av"
    and "optind s \<le> length av \<Longrightarrow> optind (snd (getopt av ostr s)) \<le> length av"
    by blast+
qed

lemma getopt_stop:
  assumes "fst (getopt av ostr s) = - 1"
  shows "length av \<le> optind (snd (getopt av ostr s))
       \<or> is_operand (av ! optind (snd (getopt av ostr s)))
       \<or> (optind (snd (getopt av ostr s)) = optind s + 1 \<and> optind s < length av
            \<and> av ! optind s = ''--'')"
  using assms getopt_letter_not_eof [of av ostr]
  by (auto simp: getopt_def is_operand_def split: list.splits if_splits)

lemma getopt_loop_final:
  assumes "place s = [] \<or> optind s < length av"
  shows "optind s \<le> optind (getopt_loop av ostr s)
       \<and> (optind s \<le> length av \<longrightarrow> optind (getopt_loop av ostr s) \<le> length av)
       \<and> (length av \<le> optind (getopt_loop av ostr s)
          \<or> is_operand (av ! optind (getopt_loop av ostr s))
          \<or> (\<exists>i. optind s \<le> i \<and> i < length av \<and> av ! i = ''--''))"
  using assms
proof (induction av ostr s rule: getopt_loop.induct)
  case (1 av ostr s)
  note inv = getopt_inv [OF "1.prems", of ostr]
  show ?case
  proof (cases "fst (getopt av ostr s) = - 1")
    case True
    with getopt_stop [OF True] inv show ?thesis
      by (subst (1 2 3 4) getopt_loop_unfold) auto
  next
    case False
    from "1.IH" [OF refl False inv(2)] inv(1,3) False show ?thesis
      by (subst (1 2 3 4) getopt_loop_unfold) (auto intro: order_trans)
  qed
qed

lemma getopt_init_simps [simp]:
  "place getopt_init = []" "optind getopt_init = 1" "err getopt_init = []" "opterr getopt_init"
  by (simp_all add: getopt_init_def)

lemma parse_flags_final:
  shows "1 \<le> optind (parse_flags (prog # xs))"
    and "optind (parse_flags (prog # xs)) \<le> length (prog # xs)"
    and "''--'' \<notin> set xs \<Longrightarrow> operands (prog # xs) = [] \<or> is_operand (hd (operands (prog # xs)))"
proof -
  let ?av = "prog # xs"
  let ?i = "optind (parse_flags ?av)"
  have "place getopt_init = [] \<or> optind getopt_init < length ?av"
    by simp
  from getopt_loop_final [OF this, of "''f:n:p:D:''"]
  have raw: "optind getopt_init \<le> ?i \<and> (optind getopt_init \<le> length ?av \<longrightarrow> ?i \<le> length ?av)
      \<and> (length ?av \<le> ?i \<or> is_operand (?av ! ?i)
          \<or> (\<exists>i. optind getopt_init \<le> i \<and> i < length ?av \<and> ?av ! i = ''--''))"
    unfolding parse_flags_def .
  from raw show lo: "1 \<le> ?i"
    by simp
  from raw show hi: "?i \<le> length ?av"
    by simp
  assume no: "''--'' \<notin> set xs"
  have "\<not> (\<exists>i. optind getopt_init \<le> i \<and> i < length ?av \<and> ?av ! i = ''--'')"
  proof
    assume "\<exists>i. optind getopt_init \<le> i \<and> i < length ?av \<and> ?av ! i = ''--''"
    then obtain i where "1 \<le> i" "i < length ?av" "?av ! i = ''--''"
      by auto
    then have "xs ! (i - 1) = ''--''" "i - 1 < length xs"
      by (auto simp: nth_Cons')
    with no show False
      by (metis nth_mem)
  qed
  with raw have "length ?av \<le> ?i \<or> is_operand (?av ! ?i)"
    by blast
  then show "operands ?av = [] \<or> is_operand (hd (operands ?av))"
  proof
    assume "length ?av \<le> ?i"
    then show ?thesis
      by (simp add: operands_def)
  next
    assume op: "is_operand (?av ! ?i)"
    show ?thesis
    proof (cases "?i < length ?av")
      case True
      then have "hd (drop ?i ?av) = ?av ! ?i"
        by (rule hd_drop_conv_nth)
      with op show ?thesis
        by (simp add: operands_def)
    next
      case False
      then show ?thesis
        by (simp add: operands_def)
    qed
  qed
qed



lemma parse_flags_dashdash:
  shows "optind (parse_flags (prog # ''--'' # post)) = 2"
    and "err (parse_flags (prog # ''--'' # post)) = []"
  using getopt_dashdash [of getopt_init "[prog]" post]
  by (simp_all add: parse_flags_def getopt_loop_unfold [of _ _ getopt_init])


lemma getopt_advances:
  assumes "fst (getopt av ostr s) \<noteq> - 1"
  shows "(scan_left av (snd (getopt av ostr s)), scan_left av s) \<in> less_than <*lex*> less_than"
proof -
  have letter: "(optind t' = optind t \<and> place t' = place t \<and> place t \<noteq> [])
              \<or> (optind t < optind t' \<and> place t' = [])"
    if "getopt_letter av ostr t = (ch, t')" for t t' ch
    using that by (auto simp: getopt_letter_def Let_def split: if_splits)
  obtain ch s' where g: "getopt av ostr s = (ch, s')"
    by (cases "getopt av ostr s")
  with assms have ch: "ch \<noteq> - 1"
    by simp
  have "(scan_left av s', scan_left av s) \<in> less_than <*lex*> less_than"
  proof (cases "place s = []")
    case True
    with g ch show ?thesis
      by (auto simp: getopt_def scan_left_def split: if_splits list.splits dest!: letter)
  next
    case False
    with g ch show ?thesis
      by (auto simp: getopt_def scan_left_def split: if_splits list.splits dest!: letter)
  qed
  with g show ?thesis
    by simp
qed

lemma getopt_loop_iterations:
  "\<exists>n. fst (getopt av ostr (((\<lambda>t. snd (getopt av ostr t)) ^^ n) s)) = - 1
      \<and> getopt_loop av ostr s = snd (getopt av ostr (((\<lambda>t. snd (getopt av ostr t)) ^^ n) s))"
proof (induction av ostr s rule: getopt_loop.induct)
  case (1 av ostr s)
  let ?f = "\<lambda>t. snd (getopt av ostr t)"
  show ?case
  proof (cases "fst (getopt av ostr s) = - 1")
    case True
    then have "fst (getopt av ostr ((?f ^^ 0) s)) = - 1
        \<and> getopt_loop av ostr s = snd (getopt av ostr ((?f ^^ 0) s))"
      by (subst getopt_loop_unfold) simp
    then show ?thesis
      by blast
  next
    case False
    from "1.IH" [OF refl False] obtain n where
      n: "fst (getopt av ostr ((?f ^^ n) (?f s))) = - 1"
         "getopt_loop av ostr (?f s) = snd (getopt av ostr ((?f ^^ n) (?f s)))"
      by blast
    have "(?f ^^ Suc n) s = (?f ^^ n) (?f s)"
      by (simp only: funpow_Suc_right o_apply)
    with n False have "fst (getopt av ostr ((?f ^^ Suc n) s)) = - 1
        \<and> getopt_loop av ostr s = snd (getopt av ostr ((?f ^^ Suc n) s))"
      by (subst getopt_loop_unfold) simp
    then show ?thesis
      by blast
  qed
qed

lemma main_eq:
  "main can_exec (prog # xs)
     = (err (parse_flags (prog # xs)),
        execvp can_exec (case operands (prog # xs) of [] \<Rightarrow> None | f # _ \<Rightarrow> Some f)
          (operands (prog # xs)))"
  using parse_flags_final(2) [of prog xs]
  by (simp add: main_def Let_def)



lemma takes_next_Nil [simp]: "\<not> takes_next []"
  by (simp add: takes_next_def)








section \<open>The claims\<close>

text \<open>
  C10. The flag-scanning loop terminates for every finite argument vector: every call of
  \<open>getopt\<close> after which the loop goes on strictly decreases what is left to scan (the
  tokens from \<open>optind\<close> on, then the characters left in the current token), and the
  loop returns after finitely many calls, with the state of the first call that
  returned \<open>-1\<close>.
\<close>

theorem scan_terminates:
  "(fst (getopt av ostr s) \<noteq> - 1 \<longrightarrow>
      (scan_left av (snd (getopt av ostr s)), scan_left av s) \<in> less_than <*lex*> less_than)
   \<and> (\<exists>n. fst (getopt av ostr (((\<lambda>t. snd (getopt av ostr t)) ^^ n) s)) = - 1
         \<and> getopt_loop av ostr s
           = snd (getopt av ostr (((\<lambda>t. snd (getopt av ostr t)) ^^ n) s)))"
  using getopt_advances [of av ostr s] getopt_loop_iterations [of av ostr s]
  by blast

theorem scan_terminates_witness:
  "fst (getopt [''prog'', ''-p'', ''8080'', ''mytool''] ''f:n:p:D:'' getopt_init) \<noteq> - 1
   \<and> (scan_left [''prog'', ''-p'', ''8080'', ''mytool'']
         (snd (getopt [''prog'', ''-p'', ''8080'', ''mytool''] ''f:n:p:D:'' getopt_init)),
       scan_left [''prog'', ''-p'', ''8080'', ''mytool''] getopt_init)
      \<in> less_than <*lex*> less_than"
proof -
  have go: "fst (getopt [''prog'', ''-p'', ''8080'', ''mytool''] ''f:n:p:D:'' getopt_init) \<noteq> - 1"
    by (simp add: getopt_def getopt_letter_def getopt_init_def)
  with scan_terminates [of "[''prog'', ''-p'', ''8080'', ''mytool'']" "''f:n:p:D:''" getopt_init]
  show ?thesis
    by blast
qed



text \<open>
  C8. The value of a recognized flag may be the next token (\<^verbatim>\<open>-f foo\<close>) or be attached
  to the flag in the same token (\<^verbatim>\<open>-ffoo\<close>). Both spellings are consumed, and what
  is left of the argument vector, and with it what \<open>main\<close> does, is the same.
\<close>

theorem attached_value_as_separate_value:
  assumes "\<forall>f \<in> set fs. recognized (letter f)" and "recognized c"
  shows "operands (prog # flag_tokens fs @ tokens_of (Attached c a v) @ rest)
           = operands (prog # flag_tokens fs @ tokens_of (Separate c (a # v)) @ rest)
       \<and> operands (prog # flag_tokens fs @ tokens_of (Separate c (a # v)) @ rest)
           = operands (prog # rest)
       \<and> main can_exec (prog # flag_tokens fs @ tokens_of (Attached c a v) @ rest)
           = main can_exec (prog # flag_tokens fs @ tokens_of (Separate c (a # v)) @ rest)"
proof -
  have rec: "\<forall>f \<in> set (fs @ [x]). recognized (letter f)" if "letter x = c" for x
    using assms that by simp
  have tok: "flag_tokens (fs @ [x]) @ rest = flag_tokens fs @ tokens_of x @ rest" for x
    by (simp add: flag_tokens_def)
  note att = operands_skip_flags [OF rec, of "Attached c a v" prog rest, unfolded tok]
  note sep = operands_skip_flags [OF rec, of "Separate c (a # v)" prog rest, unfolded tok]
  from att(1) sep(1)
  have ops: "operands (prog # flag_tokens fs @ tokens_of (Attached c a v) @ rest)
           = operands (prog # flag_tokens fs @ tokens_of (Separate c (a # v)) @ rest)"
      "operands (prog # flag_tokens fs @ tokens_of (Separate c (a # v)) @ rest)
           = operands (prog # rest)"
    by simp_all
  from att(2) sep(2)
  have "err (parse_flags (prog # flag_tokens fs @ tokens_of (Attached c a v) @ rest))
      = err (parse_flags (prog # flag_tokens fs @ tokens_of (Separate c (a # v)) @ rest))"
    by simp
  with ops(1) have "main can_exec (prog # flag_tokens fs @ tokens_of (Attached c a v) @ rest)
           = main can_exec (prog # flag_tokens fs @ tokens_of (Separate c (a # v)) @ rest)"
    by (simp only: main_eq)
  with ops show ?thesis
    by blast
qed

theorem attached_value_as_separate_value_witness:
  "recognized (letter (Separate (CHR ''n'') ''3'')) \<and> recognized (CHR ''f'')
   \<and> operands [''prog'', ''-n'', ''3'', ''-ffoo'', ''cmd'', ''-p'']
       = operands [''prog'', ''-n'', ''3'', ''-f'', ''foo'', ''cmd'', ''-p'']
   \<and> operands [''prog'', ''-n'', ''3'', ''-f'', ''foo'', ''cmd'', ''-p'']
       = operands [''prog'', ''cmd'', ''-p'']
   \<and> main every_file [''prog'', ''-n'', ''3'', ''-ffoo'', ''cmd'', ''-p'']
       = main every_file [''prog'', ''-n'', ''3'', ''-f'', ''foo'', ''cmd'', ''-p'']"
  using attached_value_as_separate_value [of "[Separate (CHR ''n'') ''3'']" "CHR ''f''" "''prog''"
      "CHR ''f''" "''oo''" "[''cmd'', ''-p'']" every_file]
  by (simp add: recognized_def flag_tokens_def)




text \<open>
  C4, as the code has it. \<open>getopt\<close> takes the token \<open>--\<close>, where a flag could stand, as
  the end of the options: the token is consumed, the token behind it is the command
  name and everything after that the command's arguments. When nothing follows \<open>--\<close>,
  no command is left.
\<close>

theorem dashdash_ends_options:
  assumes "\<forall>f \<in> set fs. recognized (letter f)"
  shows "operands (prog # flag_tokens fs @ ''--'' # rest) = rest
       \<and> main can_exec (prog # flag_tokens fs @ ''--'' # rest)
           = ([], execvp can_exec (case rest of [] \<Rightarrow> None | f # _ \<Rightarrow> Some f) rest)"
proof -
  note skip = operands_skip_flags [OF assms, of prog "''--'' # rest"]
  from parse_flags_dashdash [of prog rest]
  have "operands (prog # ''--'' # rest) = rest" "err (parse_flags (prog # ''--'' # rest)) = []"
    by (simp_all add: operands_def)
  with skip(1,2) show ?thesis
    by (simp add: main_eq)
qed

theorem dashdash_ends_options_witness:
  "recognized (letter (Separate (CHR ''f'') ''foo'')) \<and> recognized (letter (Separate (CHR ''n'') ''3''))
   \<and> operands [''prog'', ''-f'', ''foo'', ''-n'', ''3'', ''--'', ''ls'', ''-la'', ''/tmp'']
       = [''ls'', ''-la'', ''/tmp'']
   \<and> main every_file [''prog'', ''-f'', ''foo'', ''-n'', ''3'', ''--'', ''ls'', ''-la'', ''/tmp'']
       = ([], Replaced ''ls'' [''ls'', ''-la'', ''/tmp''])"
  using dashdash_ends_options [of "[Separate (CHR ''f'') ''foo'', Separate (CHR ''n'') ''3'']"
      "''prog''" "[''ls'', ''-la'', ''/tmp'']" every_file]
  by (simp add: recognized_def flag_tokens_def execvp_def every_file_def)

theorem dashdash_ends_options_counterexample:
  "main every_file [''prog'', ''-f'', ''foo'', ''-n'', ''3'', ''--'', ''ls'', ''-la'', ''/tmp'']
     \<noteq> ([], execvp every_file (Some ''--'') [''--'', ''ls'', ''-la'', ''/tmp''])"
  by code_simp

text \<open>
  C2, as the code has it. \<open>main\<close> makes no usage check. For every argument vector (with
  its program name) in which no command token is left after the scan, it calls \<open>execvp\<close>
  all the same, with a null command name and an empty vector, and writes no usage
  message: the standard error stream holds what \<open>getopt\<close> wrote about the flags,
  nothing else.
\<close>

theorem no_command_null_exec:
  assumes "argv \<noteq> []" and "operands argv = []"
  shows "main can_exec argv = (err (parse_flags argv), execvp can_exec None [])
       \<and> execvp can_exec None [] = Null_file"
proof -
  from assms(1) obtain prog xs where "argv = prog # xs"
    by (cases argv) auto
  with assms(2) show ?thesis
    by (simp add: main_eq execvp_def)
qed

theorem no_command_null_exec_witness:
  "[''prog''] \<noteq> [] \<and> operands [''prog''] = []
   \<and> main every_file [''prog''] = ([], Null_file)"
proof -
  have ops: "operands [''prog''] = []"
    by code_simp
  have e: "err (parse_flags [''prog'']) = []"
    by code_simp
  from no_command_null_exec [of "[''prog'']" every_file] ops e show ?thesis
    by simp
qed

theorem no_command_null_exec_counterexample:
  "main every_file [''prog''] = ([], Null_file)"
  by code_simp

text \<open>
  C3, as the code has it. For every argument vector whose command cannot be launched,
  \<open>main\<close> returns the \<open>-1\<close> of \<open>execvp\<close> (an exit status that is not zero) and writes no
  diagnostic: the standard error stream holds what \<open>getopt\<close> wrote about the flags,
  nothing else, and nothing at all when every flag is recognized and has its value.
\<close>

theorem launch_failure_returns_minus_one:
  assumes "operands argv = cmd # args" and "\<not> can_exec cmd"
  shows "main can_exec argv = (err (parse_flags argv), Returned (- 1))"
proof -
  from assms(1) have "\<not> length argv < optind (parse_flags argv)"
    by (auto simp: operands_def)
  with assms show ?thesis
    by (simp add: main_def Let_def execvp_def)
qed

theorem launch_failure_returns_minus_one_witness:
  "operands [''prog'', ''-f'', ''x'', ''nonexistent-binary''] = ''nonexistent-binary'' # []
   \<and> \<not> no_file ''nonexistent-binary''
   \<and> main no_file [''prog'', ''-f'', ''x'', ''nonexistent-binary''] = ([], Returned (- 1))"
proof -
  have ops: "operands [''prog'', ''-f'', ''x'', ''nonexistent-binary''] = ''nonexistent-binary'' # []"
    by code_simp
  have e: "err (parse_flags [''prog'', ''-f'', ''x'', ''nonexistent-binary'']) = []"
    by code_simp
  have no: "\<not> no_file ''nonexistent-binary''"
    by (simp add: no_file_def)
  from launch_failure_returns_minus_one [of "[''prog'', ''-f'', ''x'', ''nonexistent-binary'']"
      "''nonexistent-binary''" "[]" no_file] ops e no
  show ?thesis
    by simp
qed

theorem launch_failure_returns_minus_one_counterexample:
  "main no_file [''prog'', ''-f'', ''x'', ''nonexistent-binary''] = ([], Returned (- 1))"
  by code_simp










end
